theory Spec2Isabelle
  imports Main
begin

section \<open>Arc-eager transition parser (arcEager.py)\<close>

subsection \<open>Tokens, parser states, gold graph\<close>

text \<open>
  \<^verbatim>\<open>class ArcNode\<close>: a token with its id, surface form and part of speech.
  The field \<^verbatim>\<open>id\<close> is named \<open>id_node\<close> here (\<open>id\<close> is HOL's identity function).
  Ids are Python integers, hence \<open>int\<close>.
\<close>

record ArcNode =
  id_node :: int
  word :: string
  pos :: string

text \<open>
  \<^verbatim>\<open>class ArcState\<close>: buffer (head first), stack (top first, index 0 is the top) and
  the list of relations \<open>(head id, dependent id)\<close> in the order they were appended.
\<close>

record ArcState =
  buffer :: "ArcNode list"
  stack :: "ArcNode list"
  relations :: "(int \<times> int) list"
  verbose :: bool

text \<open>
  The networkx \<^verbatim>\<open>DiGraph\<close> the parser reads: \<open>nodes\<close> is \<^verbatim>\<open>graph.nodes()\<close> in
  iteration order, each id with its attribute dictionary \<^verbatim>\<open>graph.node[id]\<close> (an
  association list from attribute name to value); \<open>edges\<close> are the directed gold edges
  \<open>(head, dependent)\<close>.
\<close>

record graph =
  nodes :: "(int \<times> (string \<times> string) list) list"
  edges :: "(int \<times> int) list"

definition has_edge :: "graph \<Rightarrow> int \<Rightarrow> int \<Rightarrow> bool" where
  "has_edge g u v = ((u, v) \<in> set (edges g))"

text \<open>Every \<^verbatim>\<open>raise\<close> of the source, and the lookups that can fail.\<close>

datatype error = Exception string | KeyError string

subsection \<open>The four actions\<close>

type_synonym action = int

definition ARC_LEFT :: action where "ARC_LEFT = 1"
definition ARC_RIGHT :: action where "ARC_RIGHT = 2"
definition SHIFT :: action where "SHIFT = 3"
definition REDUCE :: action where "REDUCE = 4"

definition ACTIONS :: "action list" where
  "ACTIONS = [ARC_LEFT, ARC_RIGHT, SHIFT, REDUCE]"

subsection \<open>Transitions\<close>

text \<open>
  Each transition copies the three lists (\<^verbatim>\<open>list(self.buffer)\<close> ...), checks its guard,
  changes the copies and returns a new \<^verbatim>\<open>ArcState\<close>. \<^verbatim>\<open>pop(0)\<close> is \<open>tl\<close>,
  \<^verbatim>\<open>insert(0, b)\<close> is \<open>(#)\<close>, \<^verbatim>\<open>append\<close> adds at the end. After the guard the reads
  \<^verbatim>\<open>self.stack[0]\<close> and \<^verbatim>\<open>self.buffer[0]\<close> are in range.
\<close>

definition arc_left :: "ArcState \<Rightarrow> error + ArcState" where
  "arc_left st =
     (if length (stack st) < 1 \<or> length (buffer st) < 1
      then Inl (Exception ''Arc left without items'')
      else let s = hd (stack st); b = hd (buffer st) in
        Inr \<lparr>buffer = buffer st,
             stack = tl (stack st),
             relations = relations st @ [(id_node b, id_node s)],
             verbose = verbose st\<rparr>)"

definition arc_right :: "ArcState \<Rightarrow> error + ArcState" where
  "arc_right st =
     (if length (stack st) < 1 \<or> length (buffer st) < 1
      then Inl (Exception ''Arc right without items'')
      else let s = hd (stack st); b = hd (buffer st) in
        Inr \<lparr>buffer = tl (buffer st),
             stack = b # stack st,
             relations = relations st @ [(id_node s, id_node b)],
             verbose = verbose st\<rparr>)"

definition shift :: "ArcState \<Rightarrow> error + ArcState" where
  "shift st =
     (if length (buffer st) = 0
      then Inl (Exception ''Shift with empty buffer'')
      else let w = hd (buffer st) in
        Inr \<lparr>buffer = tl (buffer st),
             stack = w # stack st,
             relations = relations st,
             verbose = verbose st\<rparr>)"

definition reduce :: "ArcState \<Rightarrow> error + ArcState" where
  "reduce st =
     (if length (stack st) = 0
      then Inl (Exception ''Reduce with empty stack'')
      else
        Inr \<lparr>buffer = buffer st,
             stack = tl (stack st),
             relations = relations st,
             verbose = verbose st\<rparr>)"

definition do_action :: "ArcState \<Rightarrow> action \<Rightarrow> error + ArcState" where
  "do_action st a =
     (if a = ARC_LEFT then arc_left st
      else if a = ARC_RIGHT then arc_right st
      else if a = SHIFT then shift st
      else if a = REDUCE then reduce st
      else Inl (Exception ''Invalid Action''))"

text \<open>\<^verbatim>\<open>done\<close> (a keyword of Isabelle, hence \<open>done_state\<close>).\<close>

definition done_state :: "ArcState \<Rightarrow> bool" where
  "done_state st = (if length (buffer st) = 0 \<and> length (stack st) = 1 then True else False)"

subsection \<open>Initial state\<close>

text \<open>
  \<^verbatim>\<open>graph.node[id]['word']\<close> and \<^verbatim>\<open>['cpos']\<close> raise \<^verbatim>\<open>KeyError\<close> when the attribute
  is missing.
\<close>

fun build_buffer :: "(int \<times> (string \<times> string) list) list \<Rightarrow> error + ArcNode list" where
  "build_buffer [] = Inr []"
| "build_buffer ((i, attrs) # rest) =
     (case map_of attrs ''word'' of
        None \<Rightarrow> Inl (KeyError ''word'')
      | Some w \<Rightarrow>
         (case map_of attrs ''cpos'' of
            None \<Rightarrow> Inl (KeyError ''cpos'')
          | Some p \<Rightarrow>
             (case build_buffer rest of
                Inl e \<Rightarrow> Inl e
              | Inr b \<Rightarrow> Inr (\<lparr>id_node = i, word = w, pos = p\<rparr> # b))))"

definition initialize_from_graph :: "graph \<Rightarrow> error + ArcState" where
  "initialize_from_graph g =
     (case build_buffer (nodes g) of
        Inl e \<Rightarrow> Inl e
      | Inr b \<Rightarrow> shift \<lparr>buffer = b, stack = [], relations = [], verbose = False\<rparr>)"

subsection \<open>Legality\<close>

text \<open>
  \<^verbatim>\<open>l[1] == self.stack[0]\<close> in \<^verbatim>\<open>valid_action\<close> compares the dependent id of a relation
  (an integer) with an \<^verbatim>\<open>ArcNode\<close> object. \<^verbatim>\<open>ArcNode\<close> defines no \<^verbatim>\<open>__eq__\<close>, so Python
  falls back to object identity, and an integer is never the same object as a node:
  the comparison is \<^verbatim>\<open>False\<close> whatever the two values are.
\<close>

definition py_eq_int_node :: "int \<Rightarrow> ArcNode \<Rightarrow> bool" where
  "py_eq_int_node i n = False"

text \<open>
  The loop \<^verbatim>\<open>for l in self.relations: if l[1] == self.stack[0]: return False\<close>;
  the result says whether the loop reached its \<^verbatim>\<open>return False\<close>.
\<close>

fun relations_loop :: "(int \<times> int) list \<Rightarrow> ArcNode \<Rightarrow> bool" where
  "relations_loop [] s = False"
| "relations_loop (l # ls) s = (if py_eq_int_node (snd l) s then True else relations_loop ls s)"

definition valid_action :: "ArcState \<Rightarrow> action \<Rightarrow> bool" where
  "valid_action st a =
     (if a = ARC_LEFT \<and> (length (stack st) < 1 \<or> length (buffer st) < 1) then False
      else if a = ARC_LEFT \<and> id_node (hd (stack st)) = 0 then False
      else if a = ARC_LEFT \<and> relations_loop (relations st) (hd (stack st)) then False
      else if a = ARC_RIGHT \<and> (length (stack st) < 1 \<or> length (buffer st) < 1) then False
      else if a = SHIFT \<and> length (buffer st) = 0 then False
      else if a = REDUCE \<and> length (stack st) = 0 then False
      else True)"

subsection \<open>Static oracle\<close>

text \<open>\<^verbatim>\<open>range(0, n)\<close>: the integers \<open>0, \<dots>, n - 1\<close>, empty when \<open>n \<le> 0\<close>.\<close>

definition range0 :: "int \<Rightarrow> int list" where
  "range0 n = [0..n - 1]"

text \<open>
  The loop \<^verbatim>\<open>for k in range(0, s.id): if has_edge(k, b.id) or has_edge(b.id, k): return REDUCE\<close>;
  the result says whether the loop returned.
\<close>

fun reduce_loop :: "graph \<Rightarrow> int list \<Rightarrow> int \<Rightarrow> bool" where
  "reduce_loop g [] b = False"
| "reduce_loop g (k # ks) b =
     (if has_edge g k b \<or> has_edge g b k then True else reduce_loop g ks b)"

definition get_next_action :: "ArcState \<Rightarrow> graph \<Rightarrow> action" where
  "get_next_action st g =
     (if length (stack st) > 0 \<and> length (buffer st) > 0 then
        (let s = hd (stack st); b = hd (buffer st) in
         if has_edge g (id_node b) (id_node s) then ARC_LEFT
         else if has_edge g (id_node s) (id_node b) then ARC_RIGHT
         else if reduce_loop g (range0 (id_node s)) (id_node b) then REDUCE
         else SHIFT)
      else if length (stack st) > 1 then REDUCE
      else SHIFT)"

subsection \<open>Dynamic oracle\<close>

text \<open>
  \<^verbatim>\<open>for k in xs: if P(k): loss += 1\<close>, started with the current value of \<^verbatim>\<open>loss\<close>.
\<close>

fun loss_loop :: "('a \<Rightarrow> bool) \<Rightarrow> 'a list \<Rightarrow> int \<Rightarrow> int" where
  "loss_loop P [] loss = loss"
| "loss_loop P (k # ks) loss = loss_loop P ks (if P k then loss + 1 else loss)"

text \<open>
  \<^verbatim>\<open>for k in self.buffer: if has_edge(k.id, s.id): head_in_buffer = True; break\<close>,
  started with \<^verbatim>\<open>head_in_buffer = False\<close>.
\<close>

fun head_in_buffer_loop :: "graph \<Rightarrow> ArcNode list \<Rightarrow> ArcNode \<Rightarrow> bool" where
  "head_in_buffer_loop g [] s = False"
| "head_in_buffer_loop g (k # ks) s =
     (if has_edge g (id_node k) (id_node s) then True else head_in_buffer_loop g ks s)"

definition action_cost :: "ArcState \<Rightarrow> action \<Rightarrow> graph \<Rightarrow> error + int" where
  "action_cost st a g =
     (if \<not> valid_action st a then Inr 999
      else if a = ARC_LEFT then
        (let b = hd (buffer st); s = hd (stack st) in
         if has_edge g (id_node b) (id_node s) then Inr 0
         else if \<not> head_in_buffer_loop g (buffer st) s then Inr 0
         else Inr (loss_loop
                (\<lambda>k. has_edge g (id_node k) (id_node s) \<or> has_edge g (id_node s) (id_node k))
                (buffer st) 0))
      else if a = ARC_RIGHT then
        (let b = hd (buffer st); s = hd (stack st) in
         if has_edge g (id_node s) (id_node b) then Inr 0
         else
           (let loss1 = loss_loop (\<lambda>k. has_edge g (id_node k) (id_node b))
                          (buffer st @ stack st) 0
            in Inr (loss_loop (\<lambda>k. has_edge g (id_node b) (id_node k)) (stack st) loss1)))
      else if a = SHIFT then
        (let b = hd (buffer st) in
         Inr (loss_loop
                (\<lambda>k. has_edge g (id_node k) (id_node b) \<or> has_edge g (id_node b) (id_node k))
                (stack st) 0))
      else if a = REDUCE then
        (let s = hd (stack st) in
         Inr (loss_loop (\<lambda>k. has_edge g (id_node s) (id_node k)) (buffer st) 0))
      else Inl (Exception ''Invalid Action''))"

subsection \<open>The driver loop along the static oracle\<close>

text \<open>
  One round of the loop of the main program,
  \<^verbatim>\<open>while not arcState.done(): a = arcState.get_next_action(graph);
  if arcState.valid_action(a): arcState = arcState.do_action(a) else: break\<close>.
  \<open>None\<close>: the loop has ended (final state reached, \<^verbatim>\<open>break\<close>, or an exception).
\<close>

definition canonical_step :: "graph \<Rightarrow> ArcState \<Rightarrow> ArcState option" where
  "canonical_step g st =
     (if done_state st then None
      else let a = get_next_action st g in
        if valid_action st a
        then (case do_action st a of Inl e \<Rightarrow> None | Inr st' \<Rightarrow> Some st')
        else None)"

text \<open>The state after exactly \<open>k\<close> rounds of that loop, when the loop runs that long.\<close>

fun canonical_path :: "nat \<Rightarrow> graph \<Rightarrow> ArcState \<Rightarrow> ArcState option" where
  "canonical_path 0 g st = Some st"
| "canonical_path (Suc k) g st =
     (case canonical_step g st of None \<Rightarrow> None | Some st' \<Rightarrow> canonical_path k g st')"

text \<open>
  States reached from \<open>st0\<close> by any actions, each applied only after
  \<open>valid_action\<close> has accepted it.
\<close>

inductive reachable :: "ArcState \<Rightarrow> ArcState \<Rightarrow> bool" for st0 :: ArcState where
  reachable_init: "reachable st0 st0"
| reachable_step:
    "reachable st0 st \<Longrightarrow> valid_action st a \<Longrightarrow> do_action st a = Inr st' \<Longrightarrow> reachable st0 st'"

subsection \<open>Well-formed and projective gold trees\<close>

definition node_ids :: "graph \<Rightarrow> int list" where
  "node_ids g = map fst (nodes g)"

text \<open>
  The token sequence starts with the root (id 0), and ids are unique within a sentence
  (the nodes of a networkx graph are the keys of a dictionary).
\<close>

definition root_first :: "graph \<Rightarrow> bool" where
  "root_first g = (node_ids g \<noteq> [] \<and> hd (node_ids g) = 0 \<and> distinct (node_ids g))"

text \<open>
  The tokens come root first (id 0) with ids increasing along the sentence; edges join
  tokens of the sentence; the root has no head and every other token has exactly one.
\<close>

definition well_formed :: "graph \<Rightarrow> bool" where
  "well_formed g =
     (node_ids g \<noteq> [] \<and> hd (node_ids g) = 0 \<and> sorted_wrt (<) (node_ids g) \<and>
      list_all (\<lambda>e. fst e \<in> set (node_ids g) \<and> snd e \<in> set (node_ids g)) (edges g) \<and>
      distinct (edges g) \<and>
      list_all (\<lambda>d. length (filter (\<lambda>e. snd e = d) (edges g)) = (if d = 0 then 0 else 1))
        (node_ids g))"

text \<open>Two edges cross when exactly one end of the second lies strictly inside the first.\<close>

definition crossing :: "int \<times> int \<Rightarrow> int \<times> int \<Rightarrow> bool" where
  "crossing e f =
     (min (fst e) (snd e) < min (fst f) (snd f) \<and>
      min (fst f) (snd f) < max (fst e) (snd e) \<and>
      max (fst e) (snd e) < max (fst f) (snd f))"

definition projective :: "graph \<Rightarrow> bool" where
  "projective g = list_all (\<lambda>e. list_all (\<lambda>f. \<not> crossing e f) (edges g)) (edges g)"

subsection \<open>Invariants of the parser state\<close>

text \<open>No token of the buffer and no dependent of a relation is the root (id 0).\<close>

definition root_free :: "ArcState \<Rightarrow> bool" where
  "root_free st =
     (list_all (\<lambda>n. id_node n \<noteq> 0) (buffer st) \<and> list_all (\<lambda>r. snd r \<noteq> 0) (relations st))"

text \<open>The root is the bottom of the stack.\<close>

definition root_at_bottom :: "ArcState \<Rightarrow> bool" where
  "root_at_bottom st = (stack st \<noteq> [] \<and> id_node (last (stack st)) = 0)"

text \<open>Read from the stack bottom to the end of the buffer, the ids increase.\<close>

definition in_order :: "ArcState \<Rightarrow> bool" where
  "in_order st = sorted_wrt (<) (map id_node (rev (stack st) @ buffer st))"

subsection \<open>The transitions on a store of list objects\<close>

text \<open>
  Python lists are mutable objects, and an \<^verbatim>\<open>ArcState\<close> holds references to three of
  them. The store keeps the list objects by address (the index in the store); a new
  list gets the next free address.
\<close>

record heap =
  node_lists :: "ArcNode list list"
  rel_lists :: "(int \<times> int) list list"

record ArcState_ref =
  buffer_at :: nat
  stack_at :: nat
  relations_at :: nat
  verbose_of :: bool

text \<open>\<^verbatim>\<open>list(xs)\<close>: a new list object with the elements of the one at \<open>a\<close>.\<close>

definition copy_node_list :: "heap \<Rightarrow> nat \<Rightarrow> heap \<times> nat" where
  "copy_node_list h a =
     (h\<lparr>node_lists := node_lists h @ [node_lists h ! a]\<rparr>, length (node_lists h))"

definition copy_rel_list :: "heap \<Rightarrow> nat \<Rightarrow> heap \<times> nat" where
  "copy_rel_list h a =
     (h\<lparr>rel_lists := rel_lists h @ [rel_lists h ! a]\<rparr>, length (rel_lists h))"

text \<open>\<^verbatim>\<open>xs.pop(0)\<close>, \<^verbatim>\<open>xs.insert(0, x)\<close> and \<^verbatim>\<open>xs.append(r)\<close> change the object in place.\<close>

definition pop0 :: "heap \<Rightarrow> nat \<Rightarrow> heap" where
  "pop0 h a = h\<lparr>node_lists := (node_lists h)[a := tl (node_lists h ! a)]\<rparr>"

definition insert0 :: "heap \<Rightarrow> nat \<Rightarrow> ArcNode \<Rightarrow> heap" where
  "insert0 h a x = h\<lparr>node_lists := (node_lists h)[a := x # node_lists h ! a]\<rparr>"

definition append_rel :: "heap \<Rightarrow> nat \<Rightarrow> int \<times> int \<Rightarrow> heap" where
  "append_rel h a r = h\<lparr>rel_lists := (rel_lists h)[a := rel_lists h ! a @ [r]]\<rparr>"

text \<open>The three copies every transition starts with.\<close>

definition copy_lists :: "heap \<Rightarrow> ArcState_ref \<Rightarrow> heap \<times> ArcState_ref" where
  "copy_lists h r =
     (case copy_node_list h (buffer_at r) of (h1, new_buffer) \<Rightarrow>
      case copy_node_list h1 (stack_at r) of (h2, new_stack) \<Rightarrow>
      case copy_rel_list h2 (relations_at r) of (h3, new_rel) \<Rightarrow>
        (h3, \<lparr>buffer_at = new_buffer, stack_at = new_stack, relations_at = new_rel,
              verbose_of = verbose_of r\<rparr>))"

definition arc_left_heap :: "heap \<Rightarrow> ArcState_ref \<Rightarrow> heap \<times> (error + ArcState_ref)" where
  "arc_left_heap h r =
     (case copy_lists h r of (h', new) \<Rightarrow>
        if length (node_lists h' ! stack_at r) < 1 \<or> length (node_lists h' ! buffer_at r) < 1
        then (h', Inl (Exception ''Arc left without items''))
        else let s = hd (node_lists h' ! stack_at r); b = hd (node_lists h' ! buffer_at r);
                 h1 = append_rel h' (relations_at new) (id_node b, id_node s);
                 h2 = pop0 h1 (stack_at new)
             in (h2, Inr new))"

definition arc_right_heap :: "heap \<Rightarrow> ArcState_ref \<Rightarrow> heap \<times> (error + ArcState_ref)" where
  "arc_right_heap h r =
     (case copy_lists h r of (h', new) \<Rightarrow>
        if length (node_lists h' ! stack_at r) < 1 \<or> length (node_lists h' ! buffer_at r) < 1
        then (h', Inl (Exception ''Arc right without items''))
        else let s = hd (node_lists h' ! stack_at r); b = hd (node_lists h' ! buffer_at r);
                 h1 = append_rel h' (relations_at new) (id_node s, id_node b);
                 h2 = pop0 h1 (buffer_at new);
                 h3 = insert0 h2 (stack_at new) b
             in (h3, Inr new))"

definition shift_heap :: "heap \<Rightarrow> ArcState_ref \<Rightarrow> heap \<times> (error + ArcState_ref)" where
  "shift_heap h r =
     (case copy_lists h r of (h', new) \<Rightarrow>
        if length (node_lists h' ! buffer_at r) = 0
        then (h', Inl (Exception ''Shift with empty buffer''))
        else let w = hd (node_lists h' ! buffer_at new);
                 h1 = pop0 h' (buffer_at new);
                 h2 = insert0 h1 (stack_at new) w
             in (h2, Inr new))"

definition reduce_heap :: "heap \<Rightarrow> ArcState_ref \<Rightarrow> heap \<times> (error + ArcState_ref)" where
  "reduce_heap h r =
     (case copy_lists h r of (h', new) \<Rightarrow>
        if length (node_lists h' ! stack_at r) = 0
        then (h', Inl (Exception ''Reduce with empty stack''))
        else (pop0 h' (stack_at new), Inr new))"

definition do_action_heap ::
  "heap \<Rightarrow> ArcState_ref \<Rightarrow> action \<Rightarrow> heap \<times> (error + ArcState_ref)" where
  "do_action_heap h r a =
     (if a = ARC_LEFT then arc_left_heap h r
      else if a = ARC_RIGHT then arc_right_heap h r
      else if a = SHIFT then shift_heap h r
      else if a = REDUCE then reduce_heap h r
      else (h, Inl (Exception ''Invalid Action'')))"

text \<open>The lists an \<^verbatim>\<open>ArcState\<close> object refers to, read from the store.\<close>

definition read_state :: "heap \<Rightarrow> ArcState_ref \<Rightarrow> ArcState" where
  "read_state h r =
     \<lparr>buffer = node_lists h ! buffer_at r, stack = node_lists h ! stack_at r,
      relations = rel_lists h ! relations_at r, verbose = verbose_of r\<rparr>"

text \<open>The references of an \<^verbatim>\<open>ArcState\<close> object point to list objects of the store.\<close>

definition ref_ok :: "heap \<Rightarrow> ArcState_ref \<Rightarrow> bool" where
  "ref_ok h r =
     (buffer_at r < length (node_lists h) \<and> stack_at r < length (node_lists h) \<and>
      relations_at r < length (rel_lists h))"

text \<open>
  What a transition from the state object \<open>r\<close> in the store \<open>h\<close> to the state object
  \<open>r'\<close> in the store \<open>h'\<close> leaves alone: the lists of \<open>r\<close> read as before, every list
  object that was in the store is unchanged, and the lists of \<open>r'\<close> are new objects,
  different from one another.
\<close>

definition frame :: "heap \<Rightarrow> ArcState_ref \<Rightarrow> heap \<Rightarrow> ArcState_ref \<Rightarrow> bool" where
  "frame h r h' r' =
     (read_state h' r = read_state h r \<and>
      take (length (node_lists h)) (node_lists h') = node_lists h \<and>
      take (length (rel_lists h)) (rel_lists h') = rel_lists h \<and>
      length (node_lists h) \<le> buffer_at r' \<and> length (node_lists h) \<le> stack_at r' \<and>
      buffer_at r' \<noteq> stack_at r' \<and> length (rel_lists h) \<le> relations_at r' \<and>
      ref_ok h' r')"

subsection \<open>Example sentences\<close>

text \<open>The sentence "Bob saw Alice" with its gold tree, as \<^verbatim>\<open>iterCoNLL\<close> builds it.\<close>

definition root_tok :: ArcNode where
  "root_tok = \<lparr>id_node = 0, word = ''*root*'', pos = ''*root*''\<rparr>"

definition bob :: ArcNode where
  "bob = \<lparr>id_node = 1, word = ''Bob'', pos = ''N''\<rparr>"

definition saw :: ArcNode where
  "saw = \<lparr>id_node = 2, word = ''saw'', pos = ''V''\<rparr>"

definition alice :: ArcNode where
  "alice = \<lparr>id_node = 3, word = ''Alice'', pos = ''N''\<rparr>"

definition example_graph :: graph where
  "example_graph =
     \<lparr>nodes = [(0, [(''word'', ''*root*''), (''lemma'', ''*root*''), (''cpos'', ''*root*''),
                    (''pos'', ''*root*''), (''feats'', ''*root*'')]),
               (1, [(''word'', ''Bob''), (''lemma'', ''bob''), (''cpos'', ''N''),
                    (''pos'', ''NNP''), (''feats'', ''_'')]),
               (2, [(''word'', ''saw''), (''lemma'', ''see''), (''cpos'', ''V''),
                    (''pos'', ''VBD''), (''feats'', ''_'')]),
               (3, [(''word'', ''Alice''), (''lemma'', ''alice''), (''cpos'', ''N''),
                    (''pos'', ''NNP''), (''feats'', ''_'')])],
      edges = [(0, 2), (2, 1), (2, 3)]\<rparr>"

definition example_init :: ArcState where
  "example_init = \<lparr>buffer = [bob, saw, alice], stack = [root_tok], relations = [],
                    verbose = False\<rparr>"

text \<open>The initial state of the example sentence as objects in a store.\<close>

definition example_heap :: heap where
  "example_heap = \<lparr>node_lists = [[bob, saw, alice], [root_tok]], rel_lists = [[]]\<rparr>"

definition example_ref :: ArcState_ref where
  "example_ref = \<lparr>buffer_at = 0, stack_at = 1, relations_at = 0, verbose_of = False\<rparr>"

text \<open>
  A sentence of 999 words (ids 1 to 999) whose last word is the dependent of the root
  and the head of every other word; in the state every token but the last is on the
  stack, as after 998 shifts from the initial state.
\<close>

definition tok :: "int \<Rightarrow> ArcNode" where
  "tok i = \<lparr>id_node = i, word = ''w'', pos = ''p''\<rparr>"

definition star_graph :: graph where
  "star_graph =
     \<lparr>nodes = map (\<lambda>i. (i, [(''word'', ''w''), (''cpos'', ''p'')])) [0..999],
      edges = (0, 999) # map (\<lambda>i. (999, i)) [1..998]\<rparr>"

definition star_state :: ArcState where
  "star_state = \<lparr>buffer = [tok 999], stack = rev (map tok [0..998]),
                  relations = [], verbose = False\<rparr>"

section \<open>Verified properties\<close>

subsection \<open>Basic facts\<close>

lemmas action_defs = ARC_LEFT_def ARC_RIGHT_def SHIFT_def REDUCE_def

lemma action_distinct:
  "ARC_LEFT \<noteq> ARC_RIGHT" "ARC_LEFT \<noteq> SHIFT" "ARC_LEFT \<noteq> REDUCE"
  "ARC_RIGHT \<noteq> ARC_LEFT" "ARC_RIGHT \<noteq> SHIFT" "ARC_RIGHT \<noteq> REDUCE"
  "SHIFT \<noteq> ARC_LEFT" "SHIFT \<noteq> ARC_RIGHT" "SHIFT \<noteq> REDUCE"
  "REDUCE \<noteq> ARC_LEFT" "REDUCE \<noteq> ARC_RIGHT" "REDUCE \<noteq> SHIFT"
  by (simp_all add: action_defs)

lemma in_ACTIONS:
  "a \<in> set ACTIONS \<longleftrightarrow> a = ARC_LEFT \<or> a = ARC_RIGHT \<or> a = SHIFT \<or> a = REDUCE"
  by (auto simp: ACTIONS_def)

lemma relations_loop_never: "\<not> relations_loop rs s"
  by (induction rs) (simp_all add: py_eq_int_node_def)

lemma valid_action_left_iff:
  "valid_action st ARC_LEFT =
     (stack st \<noteq> [] \<and> buffer st \<noteq> [] \<and> id_node (hd (stack st)) \<noteq> 0)"
  by (auto simp: valid_action_def relations_loop_never)

lemma valid_action_right_iff:
  "valid_action st ARC_RIGHT = (stack st \<noteq> [] \<and> buffer st \<noteq> [])"
  by (auto simp: valid_action_def action_defs)

lemma valid_action_shift_iff: "valid_action st SHIFT = (buffer st \<noteq> [])"
  by (auto simp: valid_action_def action_defs)

lemma valid_action_reduce_iff: "valid_action st REDUCE = (stack st \<noteq> [])"
  by (auto simp: valid_action_def action_defs)

lemmas valid_action_iffs =
  valid_action_left_iff valid_action_right_iff valid_action_shift_iff valid_action_reduce_iff

lemma reduce_loop_iff:
  "reduce_loop g ks b = (\<exists>k\<in>set ks. has_edge g k b \<or> has_edge g b k)"
  by (induction ks) auto

lemma set_range0: "set (range0 n) = {k. 0 \<le> k \<and> k < n}"
  by (auto simp: range0_def)

lemma loss_loop_count: "loss_loop P xs n = n + int (length (filter P xs))"
  by (induction xs arbitrary: n) auto

lemma loss_loop_lower: "n \<le> loss_loop P xs n"
  by (simp add: loss_loop_count)

lemma loss_loop_upper: "loss_loop P xs n \<le> n + int (length xs)"
  by (simp add: loss_loop_count)

lemma initialize_example: "initialize_from_graph example_graph = Inr example_init"
  by (simp add: initialize_from_graph_def example_graph_def example_init_def shift_def
      root_tok_def bob_def saw_def alice_def)

subsection \<open>The initial state\<close>

lemma build_buffer_ids: "build_buffer ns = Inr b \<Longrightarrow> map id_node b = map fst ns"
  by (induction ns arbitrary: b rule: build_buffer.induct)
     (auto split: option.splits sum.splits)

lemma initialize_from_graph_state:
  assumes "initialize_from_graph g = Inr st0"
  obtains b where "build_buffer (nodes g) = Inr b" "b \<noteq> []"
    "st0 = \<lparr>buffer = tl b, stack = [hd b], relations = [], verbose = False\<rparr>"
  using assms
  by (auto simp: initialize_from_graph_def shift_def split: sum.splits if_splits)

lemma well_formed_root_first: "well_formed g \<Longrightarrow> root_first g"
  by (auto simp: well_formed_def root_first_def strict_sorted_iff)

lemma root_first_tail_nonzero:
  assumes "root_first g"
  shows "0 \<notin> set (tl (node_ids g))"
  using assms by (cases "node_ids g") (auto simp: root_first_def)

lemma well_formed_no_head_of_root:
  assumes "well_formed g"
  shows "\<not> has_edge g u 0"
proof
  assume "has_edge g u 0"
  then have "(u, 0) \<in> set (filter (\<lambda>e. snd e = 0) (edges g))"
    by (simp add: has_edge_def)
  moreover from assms have "0 \<in> set (node_ids g)"
    by (cases "node_ids g") (auto simp: well_formed_def)
  with assms have "length (filter (\<lambda>e. snd e = 0) (edges g)) = 0"
    by (auto simp: well_formed_def list_all_iff)
  ultimately show False by (simp del: set_filter)
qed

lemma initial_state_ids:
  assumes "initialize_from_graph g = Inr st0"
  shows "node_ids g \<noteq> []" "map id_node (stack st0) = [hd (node_ids g)]"
    "map id_node (buffer st0) = tl (node_ids g)" "relations st0 = []"
proof -
  from assms obtain b where b: "build_buffer (nodes g) = Inr b" "b \<noteq> []"
    "st0 = \<lparr>buffer = tl b, stack = [hd b], relations = [], verbose = False\<rparr>"
    by (rule initialize_from_graph_state)
  from build_buffer_ids [OF b(1)] have m: "map id_node b = node_ids g"
    by (simp add: node_ids_def)
  with b(2) show "node_ids g \<noteq> []" by auto
  from m b(2) show "map id_node (stack st0) = [hd (node_ids g)]"
    by (cases b) (auto simp: b(3) simp flip: m)
  from m show "map id_node (buffer st0) = tl (node_ids g)"
    by (simp add: b(3) map_tl)
  show "relations st0 = []" by (simp add: b(3))
qed

lemma initial_root_free:
  assumes "root_first g" "initialize_from_graph g = Inr st0"
  shows "root_free st0"
proof -
  have "0 \<notin> set (map id_node (buffer st0))"
    using root_first_tail_nonzero [OF assms(1)] initial_state_ids(3) [OF assms(2)] by simp
  then show ?thesis
    using initial_state_ids(4) [OF assms(2)] by (auto simp: root_free_def list_all_iff)
qed

lemma do_action_root_free:
  assumes "root_free st" "valid_action st a" "do_action st a = Inr st'"
  shows "root_free st'"
proof -
  from assms(3) consider "a = ARC_LEFT" | "a = ARC_RIGHT" | "a = SHIFT" | "a = REDUCE"
    by (auto simp: do_action_def split: if_splits)
  then show ?thesis
  proof cases
    case 1
    with assms show ?thesis
      by (auto simp: root_free_def do_action_def arc_left_def Let_def valid_action_left_iff
          split: if_splits)
  next
    case 2
    with assms show ?thesis
      by (cases "buffer st")
         (auto simp: root_free_def do_action_def arc_right_def Let_def action_distinct
          split: if_splits)
  next
    case 3
    with assms show ?thesis
      by (cases "buffer st")
         (auto simp: root_free_def do_action_def shift_def Let_def action_distinct
          split: if_splits)
  next
    case 4
    with assms show ?thesis
      by (auto simp: root_free_def do_action_def reduce_def Let_def action_distinct
          split: if_splits)
  qed
qed

lemma reachable_root_free:
  assumes "reachable st0 st" "root_free st0"
  shows "root_free st"
  using assms by (induction rule: reachable.induct) (auto intro: do_action_root_free)

subsection \<open>Invariants along a derivation\<close>

lemma canonical_step_progress:
  assumes nr: "\<And>u. \<not> has_edge g u 0" and rb: "root_at_bottom st" and nd: "\<not> done_state st"
  shows "\<exists>st'. canonical_step g st = Some st' \<and> root_at_bottom st' \<and>
           2 * length (buffer st') + length (stack st') + 1 =
           2 * length (buffer st) + length (stack st)"
proof -
  from rb obtain s ss where st: "stack st = s # ss"
    by (cases "stack st") (auto simp: root_at_bottom_def)
  from rb st have bottom: "ss = [] \<Longrightarrow> id_node s = 0" "ss \<noteq> [] \<Longrightarrow> id_node (last ss) = 0"
    by (auto simp: root_at_bottom_def)
  show ?thesis
  proof (cases "buffer st")
    case Nil
    with nd st have "ss \<noteq> []" by (auto simp: done_state_def)
    with Nil st bottom show ?thesis
      by (simp add: canonical_step_def done_state_def get_next_action_def
          valid_action_reduce_iff do_action_def action_distinct reduce_def root_at_bottom_def)
  next
    case (Cons b bs)
    have nd': "\<not> done_state st" by (rule nd)
    consider (L) "has_edge g (id_node b) (id_node s)"
      | (R) "\<not> has_edge g (id_node b) (id_node s)" "has_edge g (id_node s) (id_node b)"
      | (D) "\<not> has_edge g (id_node b) (id_node s)" "\<not> has_edge g (id_node s) (id_node b)"
            "reduce_loop g (range0 (id_node s)) (id_node b)"
      | (S) "\<not> has_edge g (id_node b) (id_node s)" "\<not> has_edge g (id_node s) (id_node b)"
            "\<not> reduce_loop g (range0 (id_node s)) (id_node b)"
      by blast
    then show ?thesis
    proof cases
      case L
      with nr have "id_node s \<noteq> 0" by auto
      with bottom have "ss \<noteq> []" by auto
      with L Cons st bottom \<open>id_node s \<noteq> 0\<close> show ?thesis
        by (simp add: canonical_step_def done_state_def get_next_action_def
            valid_action_left_iff do_action_def arc_left_def root_at_bottom_def)
    next
      case R
      with Cons st bottom show ?thesis
        by (simp add: canonical_step_def done_state_def get_next_action_def
            valid_action_right_iff do_action_def action_distinct arc_right_def
            root_at_bottom_def)
    next
      case D
      then have "0 < id_node s" by (auto simp: reduce_loop_iff set_range0)
      with bottom have "ss \<noteq> []" by auto
      with D Cons st bottom show ?thesis
        by (simp add: canonical_step_def done_state_def get_next_action_def
            valid_action_reduce_iff do_action_def action_distinct reduce_def
            root_at_bottom_def)
    next
      case S
      with Cons st bottom show ?thesis
        by (simp add: canonical_step_def done_state_def get_next_action_def
            valid_action_shift_iff do_action_def action_distinct shift_def
            root_at_bottom_def)
    qed
  qed
qed

lemma canonical_path_finishes:
  assumes nr: "\<And>u. \<not> has_edge g u 0"
  shows "root_at_bottom st \<Longrightarrow> 2 * length (buffer st) + length (stack st) = Suc m \<Longrightarrow>
         \<exists>st'. canonical_path m g st = Some st' \<and> done_state st'"
proof (induction m arbitrary: st)
  case 0
  then have "0 < length (stack st)" by (simp add: root_at_bottom_def)
  with "0.prems"(2) have "length (buffer st) = 0" "length (stack st) = 1" by linarith+
  then show ?case by (simp add: done_state_def)
next
  case (Suc m)
  from Suc.prems(2) have "\<not> done_state st" by (auto simp: done_state_def)
  from canonical_step_progress [OF nr Suc.prems(1) this]
  obtain st1 where st1: "canonical_step g st = Some st1" "root_at_bottom st1"
    "2 * length (buffer st1) + length (stack st1) + 1 =
     2 * length (buffer st) + length (stack st)"
    by blast
  with Suc.prems(2) have "2 * length (buffer st1) + length (stack st1) = Suc m" by simp
  from Suc.IH [OF st1(2) this] st1(1) show ?case by simp
qed

lemma initial_root_at_bottom:
  assumes "well_formed g" "initialize_from_graph g = Inr st0"
  shows "root_at_bottom st0"
proof -
  from initial_state_ids(2) [OF assms(2)] assms(1)
  have "map id_node (stack st0) = [0]" by (simp add: well_formed_def)
  then show ?thesis by (cases "stack st0") (auto simp: root_at_bottom_def)
qed

lemma initial_size:
  assumes "initialize_from_graph g = Inr st0"
  shows "2 * length (buffer st0) + length (stack st0) = Suc (2 * (length (nodes g) - 1))"
proof -
  have "length (map id_node (buffer st0)) = length (tl (node_ids g))"
    "length (map id_node (stack st0)) = length [hd (node_ids g)]"
    using initial_state_ids [OF assms] by simp_all
  then show ?thesis by (simp add: node_ids_def)
qed

lemma in_order_cons:
  assumes "in_order st" "stack st = s # ss" "buffer st = b # bs"
  shows "id_node s < id_node b" "\<forall>x\<in>set ss. id_node x < id_node s"
    "\<forall>y\<in>set bs. id_node b < id_node y"
  using assms by (auto simp: in_order_def sorted_wrt_append)

lemma stack_ids_nonneg:
  assumes "root_at_bottom st" "in_order st"
  shows "\<forall>x\<in>set (stack st). 0 \<le> id_node x"
proof -
  from assms(1) obtain ss r where s: "stack st = ss @ [r]" "id_node r = 0"
    by (cases "stack st" rule: rev_cases) (auto simp: root_at_bottom_def)
  with assms(2) have "\<forall>x\<in>set ss. 0 < id_node x"
    by (auto simp: in_order_def sorted_wrt_append)
  with s show ?thesis by (auto simp: less_imp_le)
qed

lemma do_action_in_order:
  assumes "in_order st" "do_action st a = Inr st'"
  shows "in_order st'"
proof -
  from assms(2) consider "a = ARC_LEFT" | "a = ARC_RIGHT" | "a = SHIFT" | "a = REDUCE"
    by (auto simp: do_action_def split: if_splits)
  then show ?thesis
  proof cases
    case 1
    with assms show ?thesis
      by (cases "stack st")
         (auto simp: in_order_def do_action_def arc_left_def Let_def sorted_wrt_append
          split: if_splits)
  next
    case 2
    with assms show ?thesis
      by (cases "buffer st")
         (auto simp: in_order_def do_action_def arc_right_def Let_def action_distinct
          split: if_splits)
  next
    case 3
    with assms show ?thesis
      by (cases "buffer st")
         (auto simp: in_order_def do_action_def shift_def Let_def action_distinct
          split: if_splits)
  next
    case 4
    with assms show ?thesis
      by (cases "stack st")
         (auto simp: in_order_def do_action_def reduce_def Let_def action_distinct
          sorted_wrt_append split: if_splits)
  qed
qed

lemma canonical_step_do_action:
  assumes "canonical_step g st = Some st'"
  shows "\<not> done_state st \<and> valid_action st (get_next_action st g) \<and>
         do_action st (get_next_action st g) = Inr st'"
  using assms by (auto simp: canonical_step_def Let_def split: if_splits sum.splits)

lemma canonical_path_invariants:
  assumes nr: "\<And>u. \<not> has_edge g u 0"
  shows "canonical_path k g st0 = Some st \<Longrightarrow> root_at_bottom st0 \<Longrightarrow> in_order st0 \<Longrightarrow>
         root_at_bottom st \<and> in_order st"
proof (induction k arbitrary: st0)
  case 0
  then show ?case by simp
next
  case (Suc k)
  from Suc.prems(1) obtain st1 where st1: "canonical_step g st0 = Some st1"
    "canonical_path k g st1 = Some st"
    by (auto split: option.splits)
  from canonical_step_do_action [OF st1(1)] have nd: "\<not> done_state st0"
    and act: "do_action st0 (get_next_action st0 g) = Inr st1" by simp_all
  from canonical_step_progress [OF nr Suc.prems(2) nd] st1(1) have "root_at_bottom st1" by auto
  moreover from do_action_in_order [OF Suc.prems(3) act] have "in_order st1" .
  ultimately show ?case using Suc.IH [OF st1(2)] by blast
qed

lemma filter_none: "(\<And>x. x \<in> set xs \<Longrightarrow> \<not> P x) \<Longrightarrow> filter P xs = []"
  by (simp add: filter_empty_conv)

lemma projectiveD:
  assumes "projective g" "e \<in> set (edges g)" "f \<in> set (edges g)"
  shows "\<not> crossing e f"
  using assms by (auto simp: projective_def list_all_iff)

lemma gold_action_cost_zero:
  assumes nr: "\<And>u. \<not> has_edge g u 0" and proj: "projective g"
    and rb: "root_at_bottom st" and ord: "in_order st" and nd: "\<not> done_state st"
  shows "action_cost st (get_next_action st g) g = Inr 0"
proof -
  from rb obtain s ss where st: "stack st = s # ss"
    by (cases "stack st") (auto simp: root_at_bottom_def)
  show ?thesis
  proof (cases "buffer st")
    case Nil
    with nd st have "ss \<noteq> []" by (auto simp: done_state_def)
    with Nil st show ?thesis
      by (simp add: get_next_action_def action_cost_def valid_action_reduce_iff
          action_distinct)
  next
    case (Cons b bs)
    note io = in_order_cons [OF ord st Cons]
    consider (L) "has_edge g (id_node b) (id_node s)"
      | (R) "\<not> has_edge g (id_node b) (id_node s)" "has_edge g (id_node s) (id_node b)"
      | (D) "\<not> has_edge g (id_node b) (id_node s)" "\<not> has_edge g (id_node s) (id_node b)"
            "reduce_loop g (range0 (id_node s)) (id_node b)"
      | (S) "\<not> has_edge g (id_node b) (id_node s)" "\<not> has_edge g (id_node s) (id_node b)"
            "\<not> reduce_loop g (range0 (id_node s)) (id_node b)"
      by blast
    then show ?thesis
    proof cases
      case L
      with nr have "id_node s \<noteq> 0" by auto
      with L Cons st show ?thesis
        by (simp add: get_next_action_def action_cost_def valid_action_left_iff)
    next
      case R
      with Cons st show ?thesis
        by (simp add: get_next_action_def action_cost_def valid_action_right_iff
            action_distinct)
    next
      case D
      from D(3) obtain k where k: "0 \<le> k" "k < id_node s"
        "has_edge g k (id_node b) \<or> has_edge g (id_node b) k"
        by (auto simp: reduce_loop_iff set_range0)
      have none: "\<not> has_edge g (id_node s) (id_node y)" if y: "y \<in> set (buffer st)" for y
      proof
        assume e: "has_edge g (id_node s) (id_node y)"
        with D(2) have "id_node y \<noteq> id_node b" by auto
        with y Cons io(3) have lt: "id_node b < id_node y" by auto
        from k(3) show False
        proof
          assume "has_edge g k (id_node b)"
          with e projectiveD [OF proj, of "(k, id_node b)" "(id_node s, id_node y)"]
          show False using k(2) io(1) lt by (auto simp: has_edge_def crossing_def)
        next
          assume "has_edge g (id_node b) k"
          with e projectiveD [OF proj, of "(id_node b, k)" "(id_node s, id_node y)"]
          show False using k(2) io(1) lt by (auto simp: has_edge_def crossing_def)
        qed
      qed
      have "filter (\<lambda>k. has_edge g (id_node s) (id_node k)) (buffer st) = []"
        by (rule filter_none) (rule none)
      with D Cons st show ?thesis
        by (simp add: get_next_action_def action_cost_def valid_action_reduce_iff
            action_distinct loss_loop_count)
    next
      case S
      from stack_ids_nonneg [OF rb ord] st have nn: "\<forall>x\<in>set ss. 0 \<le> id_node x" by simp
      have none: "\<not> (has_edge g (id_node x) (id_node b) \<or> has_edge g (id_node b) (id_node x))"
        if x: "x \<in> set (stack st)" for x
      proof (cases "x = s")
        case True
        with S show ?thesis by simp
      next
        case False
        with x st have "x \<in> set ss" by simp
        with io(2) nn have "id_node x \<in> set (range0 (id_node s))" by (simp add: set_range0)
        with S(3) show ?thesis by (auto simp: reduce_loop_iff)
      qed
      have "filter (\<lambda>k. has_edge g (id_node k) (id_node b) \<or> has_edge g (id_node b) (id_node k))
              (stack st) = []"
        by (rule filter_none) (rule none)
      with S Cons st show ?thesis
        by (simp add: get_next_action_def action_cost_def valid_action_shift_iff
            action_distinct loss_loop_count)
    qed
  qed
qed

lemma initial_in_order:
  assumes "well_formed g" "initialize_from_graph g = Inr st0"
  shows "in_order st0"
proof -
  from initial_state_ids [OF assms(2)]
  have "map id_node (rev (stack st0) @ buffer st0) = node_ids g"
    by (cases "stack st0") (auto simp: rev_map [symmetric] simp del: map_append)
  with assms(1) show ?thesis by (simp add: in_order_def well_formed_def)
qed

subsection \<open>Transitions on the store\<close>

lemma copy_lists_eq:
  assumes "ref_ok h r"
  shows "copy_lists h r =
     (h\<lparr>node_lists := node_lists h @ [node_lists h ! buffer_at r, node_lists h ! stack_at r],
        rel_lists := rel_lists h @ [rel_lists h ! relations_at r]\<rparr>,
      \<lparr>buffer_at = length (node_lists h), stack_at = Suc (length (node_lists h)),
       relations_at = length (rel_lists h), verbose_of = verbose_of r\<rparr>)"
  using assms
  by (simp add: copy_lists_def copy_node_list_def copy_rel_list_def ref_ok_def nth_append)

lemma arc_left_heap_frame:
  assumes ok: "ref_ok h r" and v: "stack (read_state h r) \<noteq> []" "buffer (read_state h r) \<noteq> []"
  shows "\<exists>h' r'. arc_left_heap h r = (h', Inr r') \<and>
           arc_left (read_state h r) = Inr (read_state h' r') \<and> frame h r h' r'"
  using ok v
  by (simp add: arc_left_heap_def copy_lists_eq [OF ok] arc_left_def read_state_def
      append_rel_def pop0_def frame_def ref_ok_def nth_append Let_def)

lemma arc_right_heap_frame:
  assumes ok: "ref_ok h r" and v: "stack (read_state h r) \<noteq> []" "buffer (read_state h r) \<noteq> []"
  shows "\<exists>h' r'. arc_right_heap h r = (h', Inr r') \<and>
           arc_right (read_state h r) = Inr (read_state h' r') \<and> frame h r h' r'"
  using ok v
  by (simp add: arc_right_heap_def copy_lists_eq [OF ok] arc_right_def read_state_def
      append_rel_def pop0_def insert0_def frame_def ref_ok_def nth_append Let_def)

lemma shift_heap_frame:
  assumes ok: "ref_ok h r" and v: "buffer (read_state h r) \<noteq> []"
  shows "\<exists>h' r'. shift_heap h r = (h', Inr r') \<and>
           shift (read_state h r) = Inr (read_state h' r') \<and> frame h r h' r'"
  using ok v
  by (simp add: shift_heap_def copy_lists_eq [OF ok] shift_def read_state_def
      pop0_def insert0_def frame_def ref_ok_def nth_append Let_def)

lemma reduce_heap_frame:
  assumes ok: "ref_ok h r" and v: "stack (read_state h r) \<noteq> []"
  shows "\<exists>h' r'. reduce_heap h r = (h', Inr r') \<and>
           reduce (read_state h r) = Inr (read_state h' r') \<and> frame h r h' r'"
  using ok v
  by (simp add: reduce_heap_def copy_lists_eq [OF ok] reduce_def read_state_def
      pop0_def frame_def ref_ok_def nth_append Let_def)

subsection \<open>The example sentence\<close>

lemma well_formed_example: "well_formed example_graph"
  by (simp add: well_formed_def node_ids_def example_graph_def)

lemma projective_example: "projective example_graph"
  by (simp add: projective_def crossing_def example_graph_def)

lemmas example_defs = example_graph_def example_init_def root_tok_def bob_def saw_def alice_def

lemma canonical_path_example:
  "canonical_path 6 example_graph example_init =
     Some \<lparr>buffer = [], stack = [root_tok], relations = [(2, 1), (0, 2), (2, 3)],
           verbose = False\<rparr>"
  by code_simp

lemma canonical_path_example_1:
  "canonical_path 1 example_graph example_init =
     Some \<lparr>buffer = [saw, alice], stack = [bob, root_tok], relations = [], verbose = False\<rparr>"
  by code_simp

lemma reachable_example:
  "reachable example_init
     \<lparr>buffer = [saw, alice], stack = [root_tok], relations = [(2, 1)], verbose = False\<rparr>"
proof -
  let ?st1 = "\<lparr>buffer = [saw, alice], stack = [bob, root_tok], relations = [],
               verbose = False\<rparr>"
  have "reachable example_init ?st1"
    by (rule reachable_step [OF reachable_init, of _ SHIFT])
       (simp_all add: valid_action_shift_iff do_action_def action_distinct shift_def
          example_defs)
  then show ?thesis
    by (rule reachable_step [of _ _ ARC_LEFT])
       (simp_all add: valid_action_left_iff do_action_def arc_left_def example_defs)
qed

subsection \<open>The static oracle at and past termination\<close>

text \<open>
  C10. In every state whose buffer is empty and whose stack holds at most one token
  (every final state among them), \<open>get_next_action\<close> returns \<open>SHIFT\<close>, and
  \<open>valid_action\<close> rejects \<open>SHIFT\<close> in that state.
\<close>

theorem get_next_action_past_end:
  assumes "buffer st = []" and "length (stack st) \<le> 1"
  shows "get_next_action st g = SHIFT \<and> \<not> valid_action st SHIFT"
  using assms by (simp add: get_next_action_def valid_action_shift_iff)

theorem get_next_action_past_end_witness:
  "done_state \<lparr>buffer = [], stack = [root_tok], relations = [(2, 1), (0, 2), (2, 3)],
      verbose = False\<rparr>
   \<and> get_next_action \<lparr>buffer = [], stack = [root_tok],
      relations = [(2, 1), (0, 2), (2, 3)], verbose = False\<rparr> example_graph = SHIFT
   \<and> \<not> valid_action \<lparr>buffer = [], stack = [root_tok],
      relations = [(2, 1), (0, 2), (2, 3)], verbose = False\<rparr> SHIFT"
  using get_next_action_past_end
    [of "\<lparr>buffer = [], stack = [root_tok], relations = [(2, 1), (0, 2), (2, 3)],
          verbose = False\<rparr>" example_graph]
  by (simp add: done_state_def)

subsection \<open>The decision order of the static oracle\<close>

text \<open>
  C6. \<open>get_next_action\<close> decides in this order. When stack and buffer are both
  non-empty, with \<open>s\<close> the stack top and \<open>b\<close> the buffer head: \<open>ARC_LEFT\<close> if the gold
  graph has the edge \<open>(b, s)\<close>, else \<open>ARC_RIGHT\<close> if it has \<open>(s, b)\<close>, else \<open>REDUCE\<close> if
  some id \<open>k\<close> below the id of \<open>s\<close> (ids start at 0) has a gold edge \<open>(k, b)\<close> or
  \<open>(b, k)\<close>. Otherwise, that is when stack or buffer is empty, \<open>REDUCE\<close> when the stack
  has more than one token. \<open>SHIFT\<close> in every remaining case: when none of the three
  tests on \<open>s\<close> and \<open>b\<close> succeeds, and when the stack has at most one token.
\<close>

theorem get_next_action_order:
  "get_next_action st g =
     (if stack st \<noteq> [] \<and> buffer st \<noteq> [] then
        (if has_edge g (id_node (hd (buffer st))) (id_node (hd (stack st))) then ARC_LEFT
         else if has_edge g (id_node (hd (stack st))) (id_node (hd (buffer st))) then ARC_RIGHT
         else if (\<exists>k. 0 \<le> k \<and> k < id_node (hd (stack st)) \<and>
                    (has_edge g k (id_node (hd (buffer st))) \<or>
                     has_edge g (id_node (hd (buffer st))) k))
              then REDUCE
         else SHIFT)
      else if length (stack st) > 1 then REDUCE
      else SHIFT)"
  by (auto simp: get_next_action_def reduce_loop_iff set_range0 Let_def)

theorem get_next_action_order_witness:
  "get_next_action \<lparr>buffer = [alice], stack = [saw, root_tok], relations = [(2, 1)],
      verbose = False\<rparr> example_graph = ARC_RIGHT
   \<and> get_next_action \<lparr>buffer = [], stack = [alice, saw, root_tok],
      relations = [(2, 1), (2, 3)], verbose = False\<rparr> example_graph = REDUCE
   \<and> get_next_action \<lparr>buffer = [alice], stack = [bob, root_tok], relations = [],
      verbose = False\<rparr> example_graph = SHIFT"
  using get_next_action_order
      [of "\<lparr>buffer = [alice], stack = [saw, root_tok], relations = [(2, 1)],
            verbose = False\<rparr>" example_graph]
    get_next_action_order
      [of "\<lparr>buffer = [], stack = [alice, saw, root_tok],
            relations = [(2, 1), (2, 3)], verbose = False\<rparr>" example_graph]
    get_next_action_order
      [of "\<lparr>buffer = [alice], stack = [bob, root_tok], relations = [],
            verbose = False\<rparr>" example_graph]
  by (simp add: has_edge_def example_graph_def saw_def alice_def bob_def root_tok_def)

subsection \<open>The cost of a right arc\<close>

text \<open>
  C7. In every state in which \<open>ARC_RIGHT\<close> is legal, with \<open>s\<close> the stack top and \<open>b\<close>
  the buffer head, the cost of \<open>ARC_RIGHT\<close> is 0 if the gold graph has the edge
  \<open>(s, b)\<close>; otherwise it is the number of tokens \<open>k\<close> of buffer and stack with a gold
  edge \<open>(k, b)\<close> plus the number of tokens \<open>k\<close> of the stack with a gold edge
  \<open>(b, k)\<close>.
\<close>

theorem action_cost_arc_right:
  assumes "valid_action st ARC_RIGHT"
  shows "action_cost st ARC_RIGHT g =
     Inr (if has_edge g (id_node (hd (stack st))) (id_node (hd (buffer st))) then 0
          else int (length (filter (\<lambda>k. has_edge g (id_node k) (id_node (hd (buffer st))))
                      (buffer st @ stack st)))
             + int (length (filter (\<lambda>k. has_edge g (id_node (hd (buffer st))) (id_node k))
                      (stack st))))"
  using assms by (simp add: action_cost_def action_distinct loss_loop_count Let_def)

theorem action_cost_arc_right_witness:
  "valid_action \<lparr>buffer = [saw, alice], stack = [bob, root_tok], relations = [],
      verbose = False\<rparr> ARC_RIGHT
   \<and> action_cost \<lparr>buffer = [saw, alice], stack = [bob, root_tok], relations = [],
      verbose = False\<rparr> ARC_RIGHT example_graph = Inr 2"
proof -
  have v: "valid_action \<lparr>buffer = [saw, alice], stack = [bob, root_tok], relations = [],
      verbose = False\<rparr> ARC_RIGHT"
    by (simp add: valid_action_right_iff)
  show ?thesis
    using v action_cost_arc_right [OF v, of example_graph]
    by (simp add: has_edge_def example_graph_def saw_def alice_def bob_def root_tok_def)
qed

subsection \<open>Applying an action and its legality\<close>

text \<open>
  C1, as far as the code goes. \<open>do_action\<close> raises exactly when the lists the action reads
  are empty: for \<open>ARC_RIGHT\<close>, \<open>SHIFT\<close> and \<open>REDUCE\<close> that is exactly when
  \<open>valid_action\<close> is false; for \<open>ARC_LEFT\<close> it is when the stack or the buffer is
  empty. So every action that \<open>valid_action\<close> accepts is applied without an error.
\<close>

theorem do_action_fails_iff:
  assumes "a \<in> set ACTIONS"
  shows "((\<exists>e. do_action st a = Inl e) \<longleftrightarrow>
            (if a = ARC_LEFT then stack st = [] \<or> buffer st = [] else \<not> valid_action st a))
         \<and> (valid_action st a \<longrightarrow> (\<exists>st'. do_action st a = Inr st'))"
  using assms unfolding in_ACTIONS
  by (auto simp: do_action_def arc_left_def arc_right_def shift_def reduce_def Let_def
      valid_action_iffs action_distinct)

theorem do_action_fails_iff_witness:
  "ARC_RIGHT \<in> set ACTIONS \<and> valid_action example_init ARC_RIGHT
   \<and> (\<exists>st'. do_action example_init ARC_RIGHT = Inr st')
   \<and> \<not> (\<exists>e. do_action example_init ARC_RIGHT = Inl e)"
proof -
  have a: "ARC_RIGHT \<in> set ACTIONS" by (simp add: ACTIONS_def)
  have v: "valid_action example_init ARC_RIGHT"
    by (simp add: valid_action_right_iff example_init_def)
  show ?thesis
    using a v do_action_fails_iff [OF a, of example_init] by (auto simp: action_distinct)
qed

text \<open>
  \<open>do_action\<close> does not refuse every action that \<open>valid_action\<close> rejects: in the
  initial state of the example sentence, with the root on top of the stack,
  \<open>valid_action\<close> rejects \<open>ARC_LEFT\<close>, and \<open>do_action\<close> applies it all the same,
  making the root a dependent.
\<close>

theorem do_action_applies_illegal_arc_left:
  "initialize_from_graph example_graph = Inr example_init
   \<and> \<not> valid_action example_init ARC_LEFT
   \<and> do_action example_init ARC_LEFT =
       Inr \<lparr>buffer = [bob, saw, alice], stack = [], relations = [(1, 0)], verbose = False\<rparr>"
  by (simp add: initialize_example valid_action_left_iff do_action_def arc_left_def
      example_init_def root_tok_def bob_def)

subsection \<open>The legality of a left arc\<close>

text \<open>
  C2 at a state the parser reaches: after \<open>ARC_RIGHT\<close> in the initial state of the
  example sentence, the stack top (id 1) is already the dependent of the arc
  \<open>(0, 1)\<close>, and \<open>valid_action\<close> accepts \<open>ARC_LEFT\<close> nevertheless; applying it gives
  token 1 a second head.
\<close>

theorem valid_action_arc_left_second_head:
  "do_action example_init ARC_RIGHT =
     Inr \<lparr>buffer = [saw, alice], stack = [bob, root_tok], relations = [(0, 1)],
          verbose = False\<rparr>
   \<and> valid_action \<lparr>buffer = [saw, alice], stack = [bob, root_tok], relations = [(0, 1)],
          verbose = False\<rparr> ARC_LEFT
   \<and> do_action \<lparr>buffer = [saw, alice], stack = [bob, root_tok], relations = [(0, 1)],
          verbose = False\<rparr> ARC_LEFT =
     Inr \<lparr>buffer = [saw, alice], stack = [root_tok], relations = [(0, 1), (2, 1)],
          verbose = False\<rparr>"
  by (simp add: valid_action_left_iff do_action_def arc_left_def arc_right_def
      action_distinct example_init_def root_tok_def bob_def saw_def)

subsection \<open>The sentinel of the dynamic oracle\<close>

text \<open>
  C3, as far as the code goes. For each of the four actions, \<open>action_cost\<close> returns 999
  whenever \<open>valid_action\<close> is false, and for a legal action a cost between 0 and the
  length of the buffer plus twice the length of the stack. So in states where that
  bound is below 999 the value 999 is returned exactly for the illegal actions and is
  greater than every cost of a legal one.
\<close>

theorem action_cost_sentinel:
  assumes "a \<in> set ACTIONS"
  shows "(\<not> valid_action st a \<longrightarrow> action_cost st a g = Inr 999) \<and>
         (valid_action st a \<longrightarrow>
            (\<exists>c. action_cost st a g = Inr c \<and> 0 \<le> c \<and>
                 c \<le> int (length (buffer st)) + 2 * int (length (stack st))))"
proof (intro conjI impI)
  assume "\<not> valid_action st a"
  then show "action_cost st a g = Inr 999" by (simp add: action_cost_def)
next
  assume v: "valid_action st a"
  let ?B = "int (length (buffer st)) + 2 * int (length (stack st))"
  from assms consider "a = ARC_LEFT" | "a = ARC_RIGHT" | "a = SHIFT" | "a = REDUCE"
    by (auto simp: in_ACTIONS)
  then show "\<exists>c. action_cost st a g = Inr c \<and> 0 \<le> c \<and> c \<le> ?B"
  proof cases
    case 1
    let ?P = "\<lambda>k. has_edge g (id_node k) (id_node (hd (stack st))) \<or>
                  has_edge g (id_node (hd (stack st))) (id_node k)"
    have "0 \<le> loss_loop ?P (buffer st) 0" "loss_loop ?P (buffer st) 0 \<le> ?B"
      using loss_loop_lower [of 0 ?P "buffer st"] loss_loop_upper [of ?P "buffer st" 0]
      by simp_all
    with v 1 show ?thesis
      by (simp add: action_cost_def Let_def)
  next
    case 2
    let ?P = "\<lambda>k. has_edge g (id_node k) (id_node (hd (buffer st)))"
    let ?Q = "\<lambda>k. has_edge g (id_node (hd (buffer st))) (id_node k)"
    let ?l1 = "loss_loop ?P (buffer st @ stack st) 0"
    have "0 \<le> ?l1" "?l1 \<le> int (length (buffer st)) + int (length (stack st))"
      using loss_loop_lower [of 0 ?P "buffer st @ stack st"]
        loss_loop_upper [of ?P "buffer st @ stack st" 0]
      by simp_all
    moreover have "?l1 \<le> loss_loop ?Q (stack st) ?l1"
      "loss_loop ?Q (stack st) ?l1 \<le> ?l1 + int (length (stack st))"
      by (rule loss_loop_lower, rule loss_loop_upper)
    ultimately have "0 \<le> loss_loop ?Q (stack st) ?l1" "loss_loop ?Q (stack st) ?l1 \<le> ?B"
      by linarith+
    with v 2 show ?thesis
      by (simp add: action_cost_def Let_def action_distinct)
  next
    case 3
    let ?P = "\<lambda>k. has_edge g (id_node k) (id_node (hd (buffer st))) \<or>
                  has_edge g (id_node (hd (buffer st))) (id_node k)"
    have "0 \<le> loss_loop ?P (stack st) 0" "loss_loop ?P (stack st) 0 \<le> ?B"
      using loss_loop_lower [of 0 ?P "stack st"] loss_loop_upper [of ?P "stack st" 0]
      by simp_all
    with v 3 show ?thesis
      by (simp add: action_cost_def Let_def action_distinct)
  next
    case 4
    let ?P = "\<lambda>k. has_edge g (id_node (hd (stack st))) (id_node k)"
    have "0 \<le> loss_loop ?P (buffer st) 0" "loss_loop ?P (buffer st) 0 \<le> ?B"
      using loss_loop_lower [of 0 ?P "buffer st"] loss_loop_upper [of ?P "buffer st" 0]
      by simp_all
    with v 4 show ?thesis
      by (simp add: action_cost_def Let_def action_distinct)
  qed
qed

theorem action_cost_sentinel_witness:
  "SHIFT \<in> set ACTIONS \<and> valid_action example_init SHIFT
   \<and> (\<exists>c. action_cost example_init SHIFT example_graph = Inr c \<and> 0 \<le> c \<and> c \<le> 5)
   \<and> REDUCE \<in> set ACTIONS
   \<and> \<not> valid_action \<lparr>buffer = [bob], stack = [], relations = [], verbose = False\<rparr> REDUCE
   \<and> action_cost \<lparr>buffer = [bob], stack = [], relations = [], verbose = False\<rparr> REDUCE
        example_graph = Inr 999"
proof -
  have a: "SHIFT \<in> set ACTIONS" "REDUCE \<in> set ACTIONS" by (simp_all add: ACTIONS_def)
  have v: "valid_action example_init SHIFT"
    by (simp add: valid_action_shift_iff example_init_def)
  have n: "\<not> valid_action \<lparr>buffer = [bob], stack = [], relations = [], verbose = False\<rparr> REDUCE"
    by (simp add: valid_action_reduce_iff)
  show ?thesis
    using a v n action_cost_sentinel [OF a(1), of example_init example_graph]
      action_cost_sentinel [OF a(2),
        of "\<lparr>buffer = [bob], stack = [], relations = [], verbose = False\<rparr>" example_graph]
    by (simp add: example_init_def)
qed

text \<open>
  On long sentences 999 does not outrank every cost: in \<open>star_state\<close> the action
  \<open>SHIFT\<close> is legal and its cost, 999 gold edges between the buffer head and the
  stack, is the value returned for illegal actions.
\<close>

theorem action_cost_sentinel_counterexample:
  "valid_action star_state SHIFT \<and> action_cost star_state SHIFT star_graph = Inr 999"
proof -
  have v: "valid_action star_state SHIFT"
    by (simp add: valid_action_shift_iff star_state_def)
  have all: "\<forall>k\<in>set (stack star_state).
      has_edge star_graph (id_node k) (id_node (hd (buffer star_state))) \<or>
      has_edge star_graph (id_node (hd (buffer star_state))) (id_node k)"
    by (auto simp: star_state_def star_graph_def has_edge_def tok_def)
  have "filter (\<lambda>k. has_edge star_graph (id_node k) (id_node (hd (buffer star_state))) \<or>
      has_edge star_graph (id_node (hd (buffer star_state))) (id_node k)) (stack star_state)
      = stack star_state"
    using all by (simp add: filter_id_conv)
  moreover have "length (stack star_state) = 999"
    by (simp add: star_state_def)
  ultimately show ?thesis
    using v by (simp add: action_cost_def loss_loop_count Let_def action_distinct)
qed

subsection \<open>The root is never a dependent\<close>

text \<open>
  C8. In every state reached from the initial state of a sentence (root first, ids
  unique) by actions that \<open>valid_action\<close> accepted, no relation has the root (id 0)
  as its dependent.
\<close>

theorem root_never_dependent:
  assumes "root_first g" and "initialize_from_graph g = Inr st0" and "reachable st0 st"
  shows "\<forall>(h, d)\<in>set (relations st). d \<noteq> 0"
  using reachable_root_free [OF assms(3) initial_root_free [OF assms(1,2)]]
  by (auto simp: root_free_def list_all_iff)

theorem root_never_dependent_witness:
  "root_first example_graph \<and> initialize_from_graph example_graph = Inr example_init
   \<and> reachable example_init
       \<lparr>buffer = [saw, alice], stack = [root_tok], relations = [(2, 1)], verbose = False\<rparr>
   \<and> 0 \<notin> snd ` set (relations
       \<lparr>buffer = [saw, alice], stack = [root_tok], relations = [(2, 1)], verbose = False\<rparr>)"
  using well_formed_root_first [OF well_formed_example] initialize_example reachable_example
    root_never_dependent [OF well_formed_root_first [OF well_formed_example]
      initialize_example reachable_example]
  by auto

subsection \<open>The derivation of the static oracle ends\<close>

text \<open>
  C5. For a sentence of \<open>n\<close> words (the graph has the root and \<open>n\<close> more nodes) with a
  well-formed gold tree, the loop that starts in the initial state and always applies
  the action \<open>get_next_action\<close> returns reaches a final state (empty buffer, one token
  on the stack) after at most \<open>2 * n\<close> transitions. Projectivity is not needed.
\<close>

theorem canonical_path_terminates:
  assumes "well_formed g" and "initialize_from_graph g = Inr st0"
  shows "\<exists>k st. k \<le> 2 * (length (nodes g) - 1) \<and> canonical_path k g st0 = Some st \<and>
           done_state st"
proof -
  have nr: "\<And>u. \<not> has_edge g u 0" by (rule well_formed_no_head_of_root [OF assms(1)])
  from canonical_path_finishes [OF nr initial_root_at_bottom [OF assms] initial_size [OF assms(2)]]
  show ?thesis by blast
qed

theorem canonical_path_terminates_witness:
  "well_formed example_graph \<and> initialize_from_graph example_graph = Inr example_init
   \<and> (\<exists>k st. k \<le> 6 \<and> canonical_path k example_graph example_init = Some st \<and>
         done_state st)
   \<and> canonical_path 6 example_graph example_init =
       Some \<lparr>buffer = [], stack = [root_tok], relations = [(2, 1), (0, 2), (2, 3)],
             verbose = False\<rparr>"
  using well_formed_example initialize_example canonical_path_example
    canonical_path_terminates [OF well_formed_example initialize_example]
  by (simp add: example_graph_def)

subsection \<open>Cost zero along the derivation of the static oracle\<close>

text \<open>
  C4. For a well-formed projective gold tree, in every state the loop passes before
  its final state, starting from the initial state and always applying the action
  \<open>get_next_action\<close> returns, the cost \<open>action_cost\<close> gives that action is 0.
\<close>

theorem canonical_path_cost_zero:
  assumes "well_formed g" and "projective g" and "initialize_from_graph g = Inr st0"
    and "canonical_path k g st0 = Some st" and "\<not> done_state st"
  shows "action_cost st (get_next_action st g) g = Inr 0"
proof -
  have nr: "\<And>u. \<not> has_edge g u 0" by (rule well_formed_no_head_of_root [OF assms(1)])
  from canonical_path_invariants [OF nr assms(4) initial_root_at_bottom [OF assms(1,3)]
      initial_in_order [OF assms(1,3)]]
  have "root_at_bottom st" "in_order st" by simp_all
  from gold_action_cost_zero [OF nr assms(2) this assms(5)] show ?thesis .
qed

theorem canonical_path_cost_zero_witness:
  "well_formed example_graph \<and> projective example_graph
   \<and> initialize_from_graph example_graph = Inr example_init
   \<and> canonical_path 1 example_graph example_init =
       Some \<lparr>buffer = [saw, alice], stack = [bob, root_tok], relations = [], verbose = False\<rparr>
   \<and> \<not> done_state
       \<lparr>buffer = [saw, alice], stack = [bob, root_tok], relations = [], verbose = False\<rparr>
   \<and> get_next_action
       \<lparr>buffer = [saw, alice], stack = [bob, root_tok], relations = [], verbose = False\<rparr>
       example_graph = ARC_LEFT
   \<and> action_cost
       \<lparr>buffer = [saw, alice], stack = [bob, root_tok], relations = [], verbose = False\<rparr>
       ARC_LEFT example_graph = Inr 0"
proof -
  let ?st = "\<lparr>buffer = [saw, alice], stack = [bob, root_tok], relations = [], verbose = False\<rparr>"
  have nd: "\<not> done_state ?st" by (simp add: done_state_def)
  have a: "get_next_action ?st example_graph = ARC_LEFT"
    by (simp add: get_next_action_def has_edge_def example_defs)
  show ?thesis
    using well_formed_example projective_example initialize_example canonical_path_example_1 nd a
      canonical_path_cost_zero [OF well_formed_example projective_example initialize_example
        canonical_path_example_1 nd]
    by simp
qed

subsection \<open>A transition leaves its predecessor alone\<close>

text \<open>
  C9. For every state object and every legal action, the transition returns a new
  state object whose lists are the result of the action, and leaves the buffer, the
  stack and the relations of the predecessor as they were: every list object that
  existed before is unchanged, and the three lists of the new state are new objects,
  none of them a list of the predecessor.
\<close>

theorem transition_leaves_predecessor:
  assumes "ref_ok h r" and "a \<in> set ACTIONS" and "valid_action (read_state h r) a"
  shows "\<exists>h' r'. do_action_heap h r a = (h', Inr r') \<and>
           do_action (read_state h r) a = Inr (read_state h' r') \<and>
           read_state h' r = read_state h r \<and>
           take (length (node_lists h)) (node_lists h') = node_lists h \<and>
           take (length (rel_lists h)) (rel_lists h') = rel_lists h \<and>
           length (node_lists h) \<le> buffer_at r' \<and> length (node_lists h) \<le> stack_at r' \<and>
           buffer_at r' \<noteq> stack_at r' \<and> length (rel_lists h) \<le> relations_at r' \<and>
           ref_ok h' r'"
proof -
  from assms(2) consider "a = ARC_LEFT" | "a = ARC_RIGHT" | "a = SHIFT" | "a = REDUCE"
    by (auto simp: in_ACTIONS)
  then have "\<exists>h' r'. do_action_heap h r a = (h', Inr r') \<and>
           do_action (read_state h r) a = Inr (read_state h' r') \<and> frame h r h' r'"
  proof cases
    case 1
    with assms(3) arc_left_heap_frame [OF assms(1)] show ?thesis
      by (simp add: do_action_heap_def do_action_def valid_action_left_iff)
  next
    case 2
    with assms(3) arc_right_heap_frame [OF assms(1)] show ?thesis
      by (simp add: do_action_heap_def do_action_def valid_action_right_iff action_distinct)
  next
    case 3
    with assms(3) shift_heap_frame [OF assms(1)] show ?thesis
      by (simp add: do_action_heap_def do_action_def valid_action_shift_iff action_distinct)
  next
    case 4
    with assms(3) reduce_heap_frame [OF assms(1)] show ?thesis
      by (simp add: do_action_heap_def do_action_def valid_action_reduce_iff action_distinct)
  qed
  then show ?thesis unfolding frame_def by blast
qed

theorem transition_leaves_predecessor_witness:
  "ref_ok example_heap example_ref \<and> ARC_RIGHT \<in> set ACTIONS
   \<and> valid_action (read_state example_heap example_ref) ARC_RIGHT
   \<and> do_action_heap example_heap example_ref ARC_RIGHT =
       (\<lparr>node_lists = [[bob, saw, alice], [root_tok], [saw, alice], [bob, root_tok]],
         rel_lists = [[], [(0, 1)]]\<rparr>,
        Inr \<lparr>buffer_at = 2, stack_at = 3, relations_at = 1, verbose_of = False\<rparr>)
   \<and> (\<exists>h' r'. do_action_heap example_heap example_ref ARC_RIGHT = (h', Inr r') \<and>
         read_state h' example_ref = read_state example_heap example_ref \<and>
         buffer_at r' \<noteq> buffer_at example_ref \<and> stack_at r' \<noteq> stack_at example_ref \<and>
         relations_at r' \<noteq> relations_at example_ref)"
proof -
  have ok: "ref_ok example_heap example_ref"
    by (simp add: ref_ok_def example_heap_def example_ref_def)
  have a: "ARC_RIGHT \<in> set ACTIONS" by (simp add: ACTIONS_def)
  have v: "valid_action (read_state example_heap example_ref) ARC_RIGHT"
    by (simp add: valid_action_right_iff read_state_def example_heap_def example_ref_def)
  have e: "do_action_heap example_heap example_ref ARC_RIGHT =
       (\<lparr>node_lists = [[bob, saw, alice], [root_tok], [saw, alice], [bob, root_tok]],
         rel_lists = [[], [(0, 1)]]\<rparr>,
        Inr \<lparr>buffer_at = 2, stack_at = 3, relations_at = 1, verbose_of = False\<rparr>)"
    by (simp add: do_action_heap_def action_distinct arc_right_heap_def copy_lists_def
        copy_node_list_def copy_rel_list_def append_rel_def pop0_def insert0_def
        example_heap_def example_ref_def root_tok_def bob_def Let_def numeral_2_eq_2
        numeral_3_eq_3)
  from transition_leaves_predecessor [OF ok a v]
  obtain h' r' where t: "do_action_heap example_heap example_ref ARC_RIGHT = (h', Inr r')"
    "read_state h' example_ref = read_state example_heap example_ref"
    "length (node_lists example_heap) \<le> buffer_at r'"
    "length (node_lists example_heap) \<le> stack_at r'"
    "length (rel_lists example_heap) \<le> relations_at r'"
    by blast
  from t(3-5) have "buffer_at r' \<noteq> buffer_at example_ref"
    "stack_at r' \<noteq> stack_at example_ref" "relations_at r' \<noteq> relations_at example_ref"
    by (auto simp: example_heap_def example_ref_def)
  with t(1,2) ok a v e show ?thesis by blast
qed

end
